theory Spec2Isabelle
  imports Complex_Main
begin

section \<open>JavaScript values\<close>

text \<open>
  The image pipeline of \<open>imageProcessor.ts\<close> (\<open>src/unnamed/part_004\<close>) is embedded
  function by function. A JavaScript number that is an index, a coordinate or a size is an
  \<open>int\<close>; a number that may be fractional is a \<open>real\<close>, so arithmetic is exact: the
  rounding of IEEE doubles and of \<open>Float32Array\<close> stores is not modelled. \<open>NaN\<close> and
  \<open>undefined\<close> in a numeric position are \<open>None\<close>.

  A \<open>Uint8Array\<close> is a list of naturals. Reading outside an array gives \<open>undefined\<close>,
  which is equal to no number, and writing outside it is ignored; both are written out,
  because \<open>xs ! i\<close> and \<open>nat i\<close> would hide them.
\<close>

datatype jsError = Error string | TypeError | RangeError | IndexSizeError

definition item :: "'a list \<Rightarrow> int \<Rightarrow> 'a option" where
  "item a i = (if 0 \<le> i \<and> nat i < length a then Some (a ! nat i) else None)"

definition is255 :: "nat list \<Rightarrow> int \<Rightarrow> bool" where
  "is255 a i \<longleftrightarrow> 0 \<le> i \<and> nat i < length a \<and> a ! nat i = 255"

definition put :: "'a list \<Rightarrow> int \<Rightarrow> 'a \<Rightarrow> 'a list" where
  "put a i v = (if 0 \<le> i \<and> nat i < length a then a[nat i := v] else a)"


text \<open>\<open>Math.round\<close> is \<open>\<lfloor>x + 1/2\<rfloor>\<close>, which is \<^const>\<open>round\<close>.\<close>

text \<open>\<open>Math.atan2(y, x)\<close> on numbers that are not \<open>NaN\<close> and not \<open>-0\<close>.\<close>

definition atan2 :: "real \<Rightarrow> real \<Rightarrow> real" where
  "atan2 y x =
     (if 0 < x then arctan (y / x)
      else if x < 0 then (if 0 \<le> y then arctan (y / x) + pi else arctan (y / x) - pi)
      else if 0 < y then pi / 2
      else if y < 0 then - (pi / 2)
      else 0)"


text \<open>\<open>a >= b\<close> and \<open>a > b\<close> where an operand may be \<open>NaN\<close> or \<open>undefined\<close>: false then.\<close>

definition geq :: "real option \<Rightarrow> real option \<Rightarrow> bool" where
  "geq a b = (case (a, b) of (Some u, Some v) \<Rightarrow> v \<le> u | _ \<Rightarrow> False)"

definition gt :: "real option \<Rightarrow> real option \<Rightarrow> bool" where
  "gt a b = (case (a, b) of (Some u, Some v) \<Rightarrow> v < u | _ \<Rightarrow> False)"

definition lt :: "real option \<Rightarrow> real option \<Rightarrow> bool" where
  "lt a b = (case (a, b) of (Some u, Some v) \<Rightarrow> u < v | _ \<Rightarrow> False)"

section \<open>Grayscale and blur\<close>



text \<open>
  The sum of the nine pixels around \<open>(x, y)\<close> weighted by a 3 by 3 kernel, as the loops over
  \<open>ky\<close> and \<open>kx\<close> of \<open>applyGaussianBlur\<close> and \<open>applyCannyEdgeDetection\<close> compute it;
  \<open>None\<close> is \<open>NaN\<close>, the sum once a pixel read was outside the array.
\<close>

definition accumulate :: "int option \<Rightarrow> nat option \<Rightarrow> int \<Rightarrow> int option" where
  "accumulate acc pixelValue k =
     (case (acc, pixelValue) of (Some s, Some p) \<Rightarrow> Some (s + int p * k) | _ \<Rightarrow> None)"

definition convolve :: "int list list \<Rightarrow> nat list \<Rightarrow> int \<Rightarrow> int \<Rightarrow> int \<Rightarrow> int option" where
  "convolve weights grayData width x y =
     fold (\<lambda>ky acc. fold (\<lambda>kx acc.
             accumulate acc (item grayData ((y + ky) * width + (x + kx)))
               (weights ! nat (ky + 1) ! nat (kx + 1)))
           [-1, 0, 1] acc)
       [-1, 0, 1] (Some 0)"




section \<open>Edge detection\<close>

text \<open>
  \<open>applyCannyEdgeDetection\<close>, lines 164 to 260, in its three loops: gradients,
  non-maximum suppression, hysteresis. A \<open>Float32Array\<close> is a list of \<open>real option\<close>.
\<close>

definition sobelX :: "int list list" where
  "sobelX = [[-1, 0, 1], [-2, 0, 2], [-1, 0, 1]]"

definition sobelY :: "int list list" where
  "sobelY = [[-1, -2, -1], [0, 0, 0], [1, 2, 1]]"

definition magnitudeOf :: "int option \<Rightarrow> int option \<Rightarrow> real option" where
  "magnitudeOf gx gy =
     (case (gx, gy) of
        (Some a, Some b) \<Rightarrow> Some (sqrt (real_of_int (a * a + b * b)))
      | _ \<Rightarrow> None)"

definition directionOf :: "int option \<Rightarrow> int option \<Rightarrow> real option" where
  "directionOf gx gy =
     (case (gx, gy) of
        (Some a, Some b) \<Rightarrow> Some (atan2 (real_of_int b) (real_of_int a))
      | _ \<Rightarrow> None)"

definition gradients :: "nat list \<Rightarrow> int \<Rightarrow> int \<Rightarrow> real option list \<times> real option list" where
  "gradients grayData width height =
     fold (\<lambda>y g. fold (\<lambda>x (gradientMagnitude, gradientDirection).
             let gx = convolve sobelX grayData width x y;
                 gy = convolve sobelY grayData width x y;
                 index = y * width + x
             in (put gradientMagnitude index (magnitudeOf gx gy),
                 put gradientDirection index (directionOf gx gy)))
           [1..width - 2] g)
       [1..height - 2]
       (replicate (length grayData) (Some 0), replicate (length grayData) (Some 0))"

text \<open>
  An element of a \<open>Float32Array\<close> as a number: \<open>None\<close> when the element is \<open>NaN\<close> or the
  index is outside the array.
\<close>

definition num :: "real option list \<Rightarrow> int \<Rightarrow> real option" where
  "num a i = (case item a i of Some v \<Rightarrow> v | None \<Rightarrow> None)"

text \<open>
  The offsets, from \<open>index\<close>, of the two neighbours that the \<open>if\<close> chain of lines 220 to
  236 chooses for a direction.
\<close>

definition neighborOffsets :: "real option \<Rightarrow> int \<Rightarrow> int \<times> int" where
  "neighborOffsets direction width =
     (if geq direction (Some (- pi / 8)) \<and> lt direction (Some (pi / 8))
        then (- 1, 1)
      else if geq direction (Some (pi / 8)) \<and> lt direction (Some (3 * pi / 8))
        then (- width - 1, width + 1)
      else if geq direction (Some (3 * pi / 8)) \<and> lt direction (Some (5 * pi / 8))
        then (- width, width)
      else (- width + 1, width - 1))"

definition classify :: "real option \<Rightarrow> real \<Rightarrow> real \<Rightarrow> nat" where
  "classify magnitude lowThreshold highThreshold =
     (if gt magnitude (Some highThreshold) then 255
      else if gt magnitude (Some lowThreshold) then 128 else 0)"

definition suppressAt ::
  "real option list \<Rightarrow> real option list \<Rightarrow> int \<Rightarrow> real \<Rightarrow> real \<Rightarrow> int \<Rightarrow> nat list \<Rightarrow> nat list"
where
  "suppressAt gradientMagnitude gradientDirection width lowThreshold highThreshold index
       suppressedData =
     (let magnitude = num gradientMagnitude index;
          direction = num gradientDirection index;
          (o1, o2) = neighborOffsets direction width;
          neighbor1 = num gradientMagnitude (index + o1);
          neighbor2 = num gradientMagnitude (index + o2)
      in if geq magnitude neighbor1 \<and> geq magnitude neighbor2
         then put suppressedData index (classify magnitude lowThreshold highThreshold)
         else suppressedData)"

definition nonMaximumSuppression ::
  "nat list \<Rightarrow> real option list \<Rightarrow> real option list \<Rightarrow> int \<Rightarrow> int \<Rightarrow> real \<Rightarrow> real \<Rightarrow>
   nat list"
where
  "nonMaximumSuppression grayData gradientMagnitude gradientDirection width height
       lowThreshold highThreshold =
     fold (\<lambda>y s. fold (\<lambda>x s.
             suppressAt gradientMagnitude gradientDirection width lowThreshold highThreshold
               (y * width + x) s)
           [1..width - 2] s)
       [1..height - 2] (replicate (length grayData) 0)"

subsection \<open>Hysteresis\<close>

text \<open>
  \<open>traceWeakEdges\<close>, lines 265 to 294. The stack is a list whose head is the top:
  \<open>push\<close> is \<open>#\<close> and \<open>pop\<close> takes the head. One turn of the \<open>while\<close> loop pops a
  pixel and runs the two \<open>for\<close> loops over its neighbourhood, which is
  \<open>weakNeighbors\<close>; the loop ends because every push turns a zero of \<open>edgeData\<close>
  into 255.
\<close>

type_synonym point = "int \<times> int"

definition weakNeighbors ::
  "nat list \<Rightarrow> int \<Rightarrow> int \<Rightarrow> int \<Rightarrow> int \<Rightarrow> nat list \<times> point list \<Rightarrow> nat list \<times> point list"
where
  "weakNeighbors suppressedData width height x y st =
     fold (\<lambda>dy st. fold (\<lambda>dx (edgeData, stack).
             let nx = x + dx; ny = y + dy
             in if 0 \<le> nx \<and> nx < width \<and> 0 \<le> ny \<and> ny < height
                then (let index = ny * width + nx
                      in if item suppressedData index = Some 128 \<and> item edgeData index = Some 0
                         then (put edgeData index 255, (nx, ny) # stack)
                         else (edgeData, stack))
                else (edgeData, stack))
           [-1, 0, 1] st)
       [-1, 0, 1] st"

definition zeros :: "nat list \<Rightarrow> nat" where
  "zeros a = length (filter (\<lambda>v. v = 0) a)"

lemma zeros_update:
  "i < length a \<Longrightarrow> a ! i = 0 \<Longrightarrow> v \<noteq> 0 \<Longrightarrow> zeros (a[i := v]) < zeros a"
proof (induction a arbitrary: i)
  case Nil
  then show ?case by simp
next
  case (Cons u a)
  show ?case
  proof (cases i)
    case 0
    with Cons.prems show ?thesis by (simp add: zeros_def)
  next
    case (Suc k)
    with Cons.prems have "zeros (a[k := v]) < zeros a"
      by (intro Cons.IH) simp_all
    with Suc show ?thesis by (simp add: zeros_def)
  qed
qed

lemma zeros_put:
  "item a i = Some 0 \<Longrightarrow> v \<noteq> 0 \<Longrightarrow> zeros (put a i v) < zeros a"
  by (auto simp: item_def put_def zeros_update split: if_splits)

lemma fold_invariant:
  "P s \<Longrightarrow> (\<And>k s. k \<in> set ks \<Longrightarrow> P s \<Longrightarrow> P (f k s)) \<Longrightarrow> P (fold f ks s)"
  by (induction ks arbitrary: s) simp_all

lemma weakNeighbors_decreases:
  "weakNeighbors suppressedData width height x y (edgeData, stack) = (edgeData', stack') \<Longrightarrow>
   zeros edgeData' < zeros edgeData \<or> (edgeData' = edgeData \<and> stack' = stack)"
proof -
  let ?P = "\<lambda>st. zeros (fst st) < zeros edgeData \<or> st = (edgeData, stack)"
  have "?P (weakNeighbors suppressedData width height x y (edgeData, stack))"
    unfolding weakNeighbors_def
  proof (rule fold_invariant, simp, rule fold_invariant, assumption)
    fix dy dx :: int and st :: "nat list \<times> point list"
    assume st: "?P st"
    obtain e s where [simp]: "st = (e, s)" by (cases st)
    from st have "zeros e \<le> zeros edgeData" by auto
    moreover have "zeros (put e i 255) < zeros e" if "item e i = Some 0" for i
      using that by (simp add: zeros_put)
    ultimately show "?P ((\<lambda>(edgeData, stack).
             let nx = x + dx; ny = y + dy
             in if 0 \<le> nx \<and> nx < width \<and> 0 \<le> ny \<and> ny < height
                then (let index = ny * width + nx
                      in if item suppressedData index = Some 128 \<and> item edgeData index = Some 0
                         then (put edgeData index 255, (nx, ny) # stack)
                         else (edgeData, stack))
                else (edgeData, stack)) st)"
      using st by (auto simp: Let_def dest: order_less_le_trans)
  qed
  then show "weakNeighbors suppressedData width height x y (edgeData, stack) = (edgeData', stack') \<Longrightarrow>
   zeros edgeData' < zeros edgeData \<or> (edgeData' = edgeData \<and> stack' = stack)"
    by auto
qed

function traceWeakEdgesLoop ::
  "nat list \<Rightarrow> int \<Rightarrow> int \<Rightarrow> nat list \<times> point list \<Rightarrow> nat list"
where
  "traceWeakEdgesLoop suppressedData width height (edgeData, []) = edgeData"
| "traceWeakEdgesLoop suppressedData width height (edgeData, (x, y) # stack) =
     traceWeakEdgesLoop suppressedData width height
       (weakNeighbors suppressedData width height x y (edgeData, stack))"
  by pat_completeness auto
termination
proof (relation "inv_image (less_than <*lex*> less_than)
          (\<lambda>(suppressedData, width, height, edgeData, stack). (zeros edgeData, length stack))")
  show "wf (inv_image (less_than <*lex*> less_than)
          (\<lambda>(suppressedData :: nat list, width :: int, height :: int, edgeData, stack :: point list).
             (zeros edgeData, length stack)))"
    by (intro wf_inv_image wf_lex_prod wf_less_than)
next
  fix suppressedData width height edgeData x y and stack :: "point list"
  obtain e s where es: "weakNeighbors suppressedData width height x y (edgeData, stack) = (e, s)"
    by (cases "weakNeighbors suppressedData width height x y (edgeData, stack)")
  from weakNeighbors_decreases [OF es]
  show "((suppressedData, width, height,
           weakNeighbors suppressedData width height x y (edgeData, stack)),
          (suppressedData, width, height, edgeData, (x, y) # stack))
        \<in> inv_image (less_than <*lex*> less_than)
            (\<lambda>(suppressedData, width, height, edgeData, stack). (zeros edgeData, length stack))"
    by (auto simp: es)
qed

definition traceWeakEdges ::
  "nat list \<Rightarrow> nat list \<Rightarrow> int \<Rightarrow> int \<Rightarrow> int \<Rightarrow> int \<Rightarrow> nat list"
where
  "traceWeakEdges suppressedData edgeData width height startX startY =
     traceWeakEdgesLoop suppressedData width height (edgeData, [(startX, startY)])"

definition hysteresis :: "nat list \<Rightarrow> nat list \<Rightarrow> int \<Rightarrow> int \<Rightarrow> nat list" where
  "hysteresis grayData suppressedData width height =
     fold (\<lambda>y edgeData. fold (\<lambda>x edgeData.
             let index = y * width + x
             in if item suppressedData index = Some 255
                then traceWeakEdges suppressedData (put edgeData index 255) width height x y
                else edgeData)
           [1..width - 2] edgeData)
       [1..height - 2] (replicate (length grayData) 0)"

definition applyCannyEdgeDetection :: "nat list \<Rightarrow> int \<Rightarrow> int \<Rightarrow> real \<Rightarrow> real \<Rightarrow> nat list" where
  "applyCannyEdgeDetection grayData width height lowThreshold highThreshold =
     (let (gradientMagnitude, gradientDirection) = gradients grayData width height;
          suppressedData = nonMaximumSuppression grayData gradientMagnitude gradientDirection
                             width height lowThreshold highThreshold
      in hysteresis grayData suppressedData width height)"

section \<open>Dilation\<close>

text \<open>
  \<open>applyDilation\<close>, lines 299 to 327. The two innermost loops write 255 at the nine
  positions around \<open>(x, y)\<close> into \<open>newData\<close>; the two loops around them visit the
  pixels with \<open>1 \<le> y < height - 1\<close> and \<open>1 \<le> x < width - 1\<close> and read
  \<open>dilatedData\<close>, the buffer of the previous iteration. The iteration count is an
  integer here.
\<close>

definition dilateNeighbors :: "int \<Rightarrow> int \<Rightarrow> int \<Rightarrow> nat list \<Rightarrow> nat list" where
  "dilateNeighbors width x y newData =
     fold (\<lambda>dy nd. fold (\<lambda>dx nd. put nd ((y + dy) * width + (x + dx)) 255) [-1, 0, 1] nd)
       [-1, 0, 1] newData"

definition dilationPass :: "int \<Rightarrow> int \<Rightarrow> nat list \<Rightarrow> nat list" where
  "dilationPass width height dilatedData =
     fold (\<lambda>y nd. fold (\<lambda>x nd.
             if is255 dilatedData (y * width + x) then dilateNeighbors width x y nd else nd)
           [1..width - 2] nd)
       [1..height - 2] dilatedData"

definition applyDilation :: "nat list \<Rightarrow> int \<Rightarrow> int \<Rightarrow> int \<Rightarrow> nat list" where
  "applyDilation edgeData width height iterations =
     fold (\<lambda>iter dilatedData. dilationPass width height dilatedData) [0..iterations - 1] edgeData"

text \<open>
  The positions that one pass sets: the nine positions around every set pixel that the pass
  visits.
\<close>

definition dilatedFrom :: "int \<Rightarrow> int \<Rightarrow> nat list \<Rightarrow> int \<Rightarrow> bool" where
  "dilatedFrom width height d j \<longleftrightarrow>
     (\<exists>y \<in> {1..height - 2}. \<exists>x \<in> {1..width - 2}. is255 d (y * width + x) \<and>
        (\<exists>dy \<in> {-1, 0, 1}. \<exists>dx \<in> {-1, 0, 1}. j = (y + dy) * width + (x + dx)))"

section \<open>Contours\<close>

text \<open>
  \<open>traceContour\<close>, lines 355 to 392, and \<open>findContours\<close>, lines 332 to 350. The stack
  is a list whose head is the top. \<open>traceContour\<close> updates \<open>visited\<close> in place, so the
  model returns the new \<open>visited\<close> with the contour. The \<open>while\<close> loop ends because a
  turn either marks a pixel that was not visited or only shortens the stack.
\<close>

definition pushNeighbors ::
  "nat list \<Rightarrow> nat list \<Rightarrow> int \<Rightarrow> int \<Rightarrow> int \<Rightarrow> int \<Rightarrow> point list \<Rightarrow> point list"
where
  "pushNeighbors edgeData visited width height x y stack =
     fold (\<lambda>dy stack. fold (\<lambda>dx stack.
             let nx = x + dx; ny = y + dy
             in if 0 \<le> nx \<and> nx < width \<and> 0 \<le> ny \<and> ny < height
                then (let neighborIndex = ny * width + nx
                      in if item visited neighborIndex = Some 0 \<and>
                            item edgeData neighborIndex = Some 255
                         then (nx, ny) # stack else stack)
                else stack)
           [-1, 0, 1] stack)
       [-1, 0, 1] stack"

function traceContourLoop ::
  "nat list \<Rightarrow> int \<Rightarrow> int \<Rightarrow> nat list \<times> point list \<times> point list \<Rightarrow> nat list \<times> point list"
where
  "traceContourLoop edgeData width height (visited, contour, []) = (visited, contour)"
| "traceContourLoop edgeData width height (visited, contour, (x, y) # stack) =
     (let index = y * width + x
      in if item visited index = Some 0 \<and> item edgeData index = Some 255
         then traceContourLoop edgeData width height
                (put visited index 1, contour @ [(x, y)],
                 pushNeighbors edgeData (put visited index 1) width height x y stack)
         else traceContourLoop edgeData width height (visited, contour, stack))"
  by pat_completeness auto
termination
proof (relation "inv_image (less_than <*lex*> less_than)
          (\<lambda>(edgeData, width, height, visited, contour, stack). (zeros visited, length stack))")
  show "wf (inv_image (less_than <*lex*> less_than)
          (\<lambda>(edgeData :: nat list, width :: int, height :: int, visited,
              contour :: point list, stack :: point list). (zeros visited, length stack)))"
    by (intro wf_inv_image wf_lex_prod wf_less_than)
qed (simp_all add: zeros_put)

definition traceContour ::
  "nat list \<Rightarrow> nat list \<Rightarrow> int \<Rightarrow> int \<Rightarrow> int \<Rightarrow> int \<Rightarrow> nat list \<times> point list"
where
  "traceContour edgeData visited width height startX startY =
     traceContourLoop edgeData width height (visited, [], [(startX, startY)])"

text \<open>The body of the two \<open>for\<close> loops of \<open>findContours\<close>, at the pixel \<open>(x, y)\<close>.\<close>

definition scanStep ::
  "nat list \<Rightarrow> int \<Rightarrow> int \<Rightarrow> int \<Rightarrow> int \<Rightarrow> nat list \<times> point list list \<Rightarrow>
   nat list \<times> point list list"
where
  "scanStep edgeData width height x y st =
     (case st of (visited, contours) \<Rightarrow>
        let index = y * width + x
        in if item edgeData index = Some 255 \<and> item visited index = Some 0
           then (let (visited', contour) = traceContour edgeData visited width height x y
                 in (visited',
                     if length contour > 10 then contours @ [contour] else contours))
           else (visited, contours))"

definition findContoursScan ::
  "nat list \<Rightarrow> int \<Rightarrow> int \<Rightarrow> nat list \<times> point list list"
where
  "findContoursScan edgeData width height =
     fold (\<lambda>y st. fold (\<lambda>x st. scanStep edgeData width height x y st) [0..width - 1] st)
       [0..height - 1] (replicate (length edgeData) 0, [])"

definition findContours :: "nat list \<Rightarrow> int \<Rightarrow> int \<Rightarrow> point list list" where
  "findContours edgeData width height = snd (findContoursScan edgeData width height)"

section \<open>Rectangle selection\<close>



record rect =
  rect_x :: int
  rect_y :: int
  rect_width :: int
  rect_height :: int
  rect_angle :: real





section \<open>Cropping\<close>

text \<open>
  A canvas is its size and its bitmap. What the browser does is a parameter of the model:
  whether a canvas gives a 2D context, the bitmap that \<open>drawImage\<close> leaves, and the
  encodings of \<open>toDataURL\<close>.
\<close>

record canvas =
  canvas_width :: int
  canvas_height :: int
  canvas_bitmap :: "nat list"

record image =
  image_width :: int
  image_height :: int
  image_bitmap :: "nat list"

record cropRegion =
  cropX :: real
  cropY :: real
  cropWidth :: real
  cropHeight :: real

record browser =
  loadImage :: "string \<Rightarrow> image option"
  hasContext :: bool
  drawImage :: "image \<Rightarrow> int \<Rightarrow> int \<Rightarrow> jsError + nat list"
  toDataURL :: "canvas \<Rightarrow> string"
  cropHasContext :: bool
  cropToDataURL :: "canvas \<Rightarrow> cropRegion \<Rightarrow> string"

text \<open>Lines 495 to 501 of \<open>cropWithPerspectiveTransform\<close>: the region that is drawn.\<close>

definition insetOf :: "real \<Rightarrow> int \<Rightarrow> real" where
  "insetOf insetMargin side = min insetMargin (real_of_int side / 4)"

definition cropRegionOf :: "canvas \<Rightarrow> rect \<Rightarrow> real \<Rightarrow> cropRegion" where
  "cropRegionOf canvas r insetMargin =
     (let insetX = insetOf insetMargin (rect_width r);
          insetY = insetOf insetMargin (rect_height r);
          cx = max 0 (real_of_int (rect_x r) + insetX);
          cy = max 0 (real_of_int (rect_y r) + insetY)
      in \<lparr>cropX = cx, cropY = cy,
          cropWidth = min (real_of_int (canvas_width canvas) - cx)
                          (real_of_int (rect_width r) - 2 * insetX),
          cropHeight = min (real_of_int (canvas_height canvas) - cy)
                           (real_of_int (rect_height r) - 2 * insetY)\<rparr>)"

text \<open>
  \<open>cropWithPerspectiveTransform\<close>, lines 489 to 518: the new canvas has the size of the
  region, the region is drawn on it and it is encoded. \<open>getContext('2d')!\<close> may give
  \<open>null\<close>, and \<open>cropCtx.drawImage\<close> throws a \<open>TypeError\<close> then.
\<close>

definition cropWithPerspectiveTransform ::
  "browser \<Rightarrow> canvas \<Rightarrow> rect \<Rightarrow> real \<Rightarrow> jsError + string"
where
  "cropWithPerspectiveTransform env canvas r insetMargin =
     (if cropHasContext env
      then Inr (cropToDataURL env canvas (cropRegionOf canvas r insetMargin))
      else Inl TypeError)"

section \<open>The pipeline\<close>

record CropConfig =
  cannyLow :: real
  cannyHigh :: real
  dilationIterations :: int
  minAreaPercent :: real
  insetMargin :: real


text \<open>The object \<open>{imageUrl, width, height}\<close> that the promise resolves with.\<close>

record processed =
  result_imageUrl :: string
  result_width :: int
  result_height :: int


text \<open>Lines 96 to 100 of \<open>processImageWithJavaScript\<close>: \<open>dilatedData\<close>.\<close>

definition dilatedDataOf :: "nat list \<Rightarrow> int \<Rightarrow> int \<Rightarrow> int \<Rightarrow> nat list" where
  "dilatedDataOf edgeData w h iterations =
     (if iterations > 0 then applyDilation edgeData w h iterations else edgeData)"


text \<open>
  \<open>processImageWithJavaScript\<close>, lines 80 to 113. \<open>canvas.getContext('2d')!\<close> is
  the context that \<open>cropToInnerRectangle\<close> has already obtained for this canvas.
  \<open>respond\<close> is the \<open>if (bestRect)\<close> of lines 106 to 112.
\<close>

definition respond :: "browser \<Rightarrow> canvas \<Rightarrow> rect option \<Rightarrow> real \<Rightarrow> jsError + processed" where
  "respond env canvas bestRect inset =
     (case bestRect of
        Some r \<Rightarrow>
          (case cropWithPerspectiveTransform env canvas r inset of
             Inl e \<Rightarrow> Inl e
           | Inr url \<Rightarrow>
               Inr \<lparr>result_imageUrl = url, result_width = rect_width r,
                    result_height = rect_height r\<rparr>)
      | None \<Rightarrow>
          Inr \<lparr>result_imageUrl = toDataURL env canvas, result_width = canvas_width canvas,
               result_height = canvas_height canvas\<rparr>)"



definition scaledSize :: "image \<Rightarrow> int \<times> int" where
  "scaledSize img =
     (let maxSide = 1400;
          longest = max (image_width img) (image_height img);
          scale = (if longest = 0 then 1 else min 1 (maxSide / real_of_int longest))
      in (round (real_of_int (image_width img) * scale),
          round (real_of_int (image_height img) * scale)))"


section \<open>Connected components of a mask\<close>

text \<open>
  The pixel \<open>(x, y)\<close> of an image of size \<open>w\<close> by \<open>h\<close> is at index \<open>y * w + x\<close>.
  A set pixel is a pixel inside the image whose element is 255. Two pixels are adjacent
  when they differ by at most one in each coordinate, and the component of a pixel is
  what can be reached from it through adjacent set pixels (8-connectivity).
\<close>

definition inBounds :: "int \<Rightarrow> int \<Rightarrow> point \<Rightarrow> bool" where
  "inBounds w h p \<longleftrightarrow> 0 \<le> fst p \<and> fst p < w \<and> 0 \<le> snd p \<and> snd p < h"

definition pixelIndex :: "int \<Rightarrow> point \<Rightarrow> int" where
  "pixelIndex w p = snd p * w + fst p"

definition adjacent :: "point \<Rightarrow> point \<Rightarrow> bool" where
  "adjacent p q \<longleftrightarrow> \<bar>fst p - fst q\<bar> \<le> 1 \<and> \<bar>snd p - snd q\<bar> \<le> 1"

definition setPixels :: "nat list \<Rightarrow> int \<Rightarrow> int \<Rightarrow> point set" where
  "setPixels edgeData w h = {p. inBounds w h p \<and> item edgeData (pixelIndex w p) = Some 255}"

definition adjacency :: "point set \<Rightarrow> (point \<times> point) set" where
  "adjacency A = {(p, q). p \<in> A \<and> q \<in> A \<and> adjacent p q}"

definition component :: "nat list \<Rightarrow> int \<Rightarrow> int \<Rightarrow> point \<Rightarrow> point set" where
  "component edgeData w h p = (adjacency (setPixels edgeData w h))\<^sup>* `` {p}"

text \<open>
  What the proofs about the tracer speak of: the set pixels not yet visited, what a trace
  can reach through them, the pixels marked in \<open>visited\<close>, and the invariants of the
  two loops.
\<close>

definition unvisited :: "nat list \<Rightarrow> int \<Rightarrow> int \<Rightarrow> nat list \<Rightarrow> point set" where
  "unvisited edgeData w h visited =
     {p. inBounds w h p \<and> item visited (pixelIndex w p) = Some 0 \<and>
         item edgeData (pixelIndex w p) = Some 255}"

definition reachable :: "nat list \<Rightarrow> int \<Rightarrow> int \<Rightarrow> nat list \<Rightarrow> point \<Rightarrow> point set" where
  "reachable edgeData w h visited s = (adjacency (unvisited edgeData w h visited))\<^sup>* `` {s}"

definition marks :: "int \<Rightarrow> nat list \<Rightarrow> point list \<Rightarrow> nat list \<Rightarrow> bool" where
  "marks w visited0 contour visited \<longleftrightarrow>
     (\<forall>i. item visited i =
        (if \<exists>p \<in> set contour. pixelIndex w p = i then Some 1 else item visited0 i))"

definition traceInv ::
  "nat list \<Rightarrow> int \<Rightarrow> int \<Rightarrow> nat list \<Rightarrow> point \<Rightarrow> nat list \<times> point list \<times> point list \<Rightarrow> bool"
where
  "traceInv edgeData w h visited0 s st \<longleftrightarrow>
     (case st of (visited, contour, stack) \<Rightarrow>
        distinct contour \<and>
        set contour \<subseteq> reachable edgeData w h visited0 s \<and>
        set stack \<subseteq> reachable edgeData w h visited0 s \<and>
        marks w visited0 contour visited \<and>
        (\<forall>p \<in> set contour. \<forall>q \<in> unvisited edgeData w h visited0.
           adjacent p q \<longrightarrow> q \<in> set contour \<or> q \<in> set stack) \<and>
        (s \<in> set contour \<or> s \<in> set stack))"

definition marked :: "int \<Rightarrow> int \<Rightarrow> nat list \<Rightarrow> point set" where
  "marked w h visited = {p. inBounds w h p \<and> item visited (pixelIndex w p) = Some 1}"

definition wellMarked :: "nat list \<Rightarrow> nat list \<Rightarrow> bool" where
  "wellMarked edgeData visited \<longleftrightarrow>
     (\<forall>i. if item edgeData i = None then item visited i = None
          else item visited i = Some 0 \<or> item visited i = Some 1)"

definition scanInv ::
  "nat list \<Rightarrow> int \<Rightarrow> int \<Rightarrow> point list \<Rightarrow> nat list \<times> point list list \<Rightarrow> bool"
where
  "scanInv edgeData w h seen st \<longleftrightarrow>
     (case st of (visited, contours) \<Rightarrow>
        wellMarked edgeData visited \<and>
        marked w h visited \<subseteq> setPixels edgeData w h \<and>
        (\<forall>p \<in> marked w h visited. \<forall>q \<in> setPixels edgeData w h.
           adjacent p q \<longrightarrow> q \<in> marked w h visited) \<and>
        (\<forall>p \<in> set seen. p \<in> setPixels edgeData w h \<longrightarrow> p \<in> marked w h visited) \<and>
        set (map set contours) =
          {C. \<exists>p \<in> marked w h visited. C = component edgeData w h p \<and> 10 < card C} \<and>
        distinct (concat contours) \<and>
        set (concat contours) \<subseteq> marked w h visited)"

text \<open>The pixels of an image in the order of the scan of \<open>findContours\<close>: row by row.\<close>

definition scanOrder :: "int \<Rightarrow> int \<Rightarrow> point list" where
  "scanOrder w h = concat (map (\<lambda>y. map (\<lambda>x. (x, y)) [0..w - 1]) [0..h - 1])"

section \<open>The selection as the specification words it\<close>















text \<open>
  Browsers used as examples. In the first no canvas gives a 2D context. The second
  loads an image of 1 by 3000 pixels, which is scaled to a canvas of width 0. The third
  loads one black pixel.
\<close>

definition houseImage :: image where
  "houseImage = \<lparr>image_width = 800, image_height = 600, image_bitmap = replicate 1920000 255\<rparr>"




definition blackPixel :: image where
  "blackPixel = \<lparr>image_width = 1, image_height = 1, image_bitmap = [0, 0, 0, 255]\<rparr>"

definition blackPixelBrowser :: browser where
  "blackPixelBrowser =
     \<lparr>loadImage = (\<lambda>url. if url = ''missing.png'' then None else Some blackPixel),
      hasContext = True,
      drawImage = (\<lambda>img w h. if w = image_width img \<and> h = image_height img
                                then Inr (image_bitmap img) else Inl (Error ''resampling'')),
      toDataURL = (\<lambda>c. ''data:image/png;base64,canvas''), cropHasContext = True,
      cropToDataURL = (\<lambda>c r. ''data:image/png;base64,crop'')\<rparr>"

text \<open>
  Masks used as examples. \<open>tenInARow\<close> is 10 by 1 with every pixel set. \<open>twoRows\<close> is
  12 by 3: the top row has 11 set pixels, the middle row none, the bottom row 10.
  \<open>twoLongRows\<close> is 12 by 3 with the top and the bottom row set.
\<close>

definition tenInARow :: "nat list" where
  "tenInARow = replicate 10 255"

definition twoRows :: "nat list" where
  "twoRows = replicate 11 255 @ [0] @ replicate 12 0 @ replicate 10 255 @ [0, 0]"

definition twoLongRows :: "nat list" where
  "twoLongRows = replicate 12 255 @ replicate 12 0 @ replicate 12 255"

text \<open>
  Two gray images of 5 by 3 pixels, each the mirror image of the other: three equal rows,
  bright at one end.
\<close>

definition brightLeft :: "nat list" where
  "brightLeft = [255, 200, 0, 0, 0,  255, 200, 0, 0, 0,  255, 200, 0, 0, 0]"

definition brightRight :: "nat list" where
  "brightRight = [0, 0, 0, 200, 255,  0, 0, 0, 200, 255,  0, 0, 0, 200, 255]"

section \<open>Facts about typed arrays and marking loops\<close>

lemma length_put [simp]: "length (put a i v) = length a"
  by (simp add: put_def)

lemma nth_put:
  "j < length a \<Longrightarrow> put a i v ! j = (if i = int j then v else a ! j)"
  by (auto simp: put_def nth_list_update)

lemma fold_mark:
  assumes len: "\<And>k a. k \<in> set ks \<Longrightarrow> length (F k a) = length a"
    and nth: "\<And>k a j. k \<in> set ks \<Longrightarrow> j < length a \<Longrightarrow>
                F k a ! j = (if P k j then 255 else a ! j)"
  shows "length (fold F ks a) = length a \<and>
         (\<forall>j < length a. fold F ks a ! j = (if \<exists>k \<in> set ks. P k j then 255 else a ! j))"
  using assms
proof (induction ks arbitrary: a)
  case Nil
  then show ?case by simp
next
  case (Cons k ks)
  have ih: "length (fold F ks (F k a)) = length (F k a) \<and>
        (\<forall>j < length (F k a). fold F ks (F k a) ! j =
            (if \<exists>k \<in> set ks. P k j then 255 else F k a ! j))"
    by (rule Cons.IH) (simp_all add: Cons.prems)
  have l: "length (F k a) = length a" by (simp add: Cons.prems)
  have n: "\<And>j. j < length a \<Longrightarrow> F k a ! j = (if P k j then 255 else a ! j)"
    by (simp add: Cons.prems)
  show ?case using ih l n by auto
qed

section \<open>Dilation: what one pass sets, and what it keeps\<close>

lemma dilateNeighbors_mark:
  "length (dilateNeighbors w x y a) = length a \<and>
   (\<forall>j < length a. dilateNeighbors w x y a ! j =
      (if \<exists>dy \<in> set [-1, 0, 1]. \<exists>dx \<in> set [-1, 0, 1]. int j = (y + dy) * w + (x + dx)
       then 255 else a ! j))"
  unfolding dilateNeighbors_def
proof (rule fold_mark)
  fix dy :: int and a :: "nat list"
  show "length (fold (\<lambda>dx nd. put nd ((y + dy) * w + (x + dx)) 255) [-1, 0, 1] a) = length a"
    by simp
next
  fix dy :: int and a :: "nat list" and j
  assume j: "j < length a"
  have "length (fold (\<lambda>dx nd. put nd ((y + dy) * w + (x + dx)) 255) [-1, 0, 1] a) = length a \<and>
        (\<forall>j < length a. fold (\<lambda>dx nd. put nd ((y + dy) * w + (x + dx)) 255) [-1, 0, 1] a ! j =
           (if \<exists>dx \<in> set [-1, 0, 1]. (y + dy) * w + (x + dx) = int j then 255 else a ! j))"
    by (rule fold_mark) (simp_all add: nth_put)
  with j show "fold (\<lambda>dx nd. put nd ((y + dy) * w + (x + dx)) 255) [-1, 0, 1] a ! j =
        (if \<exists>dx \<in> set [-1, 0, 1]. int j = (y + dy) * w + (x + dx) then 255 else a ! j)"
    by (auto simp: eq_commute)
qed

lemma dilationPass_mark:
  "length (dilationPass w h d) = length d \<and>
   (\<forall>j < length d. dilationPass w h d ! j = (if dilatedFrom w h d (int j) then 255 else d ! j))"
proof -
  let ?row = "\<lambda>y nd. fold (\<lambda>x nd.
      if is255 d (y * w + x) then dilateNeighbors w x y nd else nd) [1..w - 2] nd"
  let ?Q = "\<lambda>y x j. is255 d (y * w + x) \<and>
      (\<exists>dy \<in> set [-1, 0, 1]. \<exists>dx \<in> set [-1, 0, 1]. int j = (y + dy) * w + (x + dx))"
  have row: "length (?row y a) = length a \<and>
      (\<forall>j < length a. ?row y a ! j = (if \<exists>x \<in> set [1..w - 2]. ?Q y x j then 255 else a ! j))"
    for y a
    by (rule fold_mark) (simp_all add: dilateNeighbors_mark)
  have "length (fold ?row [1..h - 2] d) = length d \<and>
      (\<forall>j < length d. fold ?row [1..h - 2] d ! j =
         (if \<exists>y \<in> set [1..h - 2]. \<exists>x \<in> set [1..w - 2]. ?Q y x j then 255 else d ! j))"
    by (rule fold_mark) (simp_all add: row)
  then show ?thesis
    by (simp add: dilationPass_def dilatedFrom_def)
qed

lemma fold_const: "fold (\<lambda>k. f) ks a = (f ^^ length ks) a"
  by (induction ks arbitrary: a) (simp_all add: funpow_swap1)

lemma applyDilation_funpow:
  "applyDilation edgeData w h n = (dilationPass w h ^^ nat n) edgeData"
  by (simp add: applyDilation_def fold_const)

lemma dilationPass_keeps: "is255 d i \<Longrightarrow> is255 (dilationPass w h d) i"
  using dilationPass_mark [of w h d] by (auto simp: is255_def)

lemma funpow_dilationPass_keeps: "is255 d i \<Longrightarrow> is255 ((dilationPass w h ^^ n) d) i"
  by (induction n) (simp_all add: dilationPass_keeps)

text \<open>
  C10: dilation never clears a pixel. For every mask, every size and every iteration count,
  a position that is set (255) in the input of \<open>applyDilation\<close> is set in its output.
\<close>

theorem applyDilation_monotone:
  "is255 edgeData i \<Longrightarrow> is255 (applyDilation edgeData w h iterations) i"
  by (simp add: applyDilation_funpow funpow_dilationPass_keeps)

theorem applyDilation_monotone_witness:
  "is255 [0, 0, 0, 0, 255, 0, 0, 0, 0] 4 \<and>
   is255 (applyDilation [0, 0, 0, 0, 255, 0, 0, 0, 0] 3 3 2) 4"
  using applyDilation_monotone [of "[0, 0, 0, 0, 255, 0, 0, 0, 0]" 4 3 3 2]
  by (simp add: is255_def)

text \<open>
  C6, as stated, fails: a pass does not visit the set pixels of the outermost rows and
  columns. In the 3 by 3 mask whose only set pixel is the corner \<open>(0, 0)\<close>, the
  neighbour \<open>(1, 1)\<close>, at index 4, is still clear after one iteration.
\<close>

theorem dilation_border_counterexample:
  "is255 [255, 0, 0, 0, 0, 0, 0, 0, 0] (0 * 3 + 0) \<and>
   \<not> is255 (applyDilation [255, 0, 0, 0, 0, 0, 0, 0, 0] 3 3 1) (1 * 3 + 1)"
  by (simp add: is255_def applyDilation_def dilationPass_def)

text \<open>
  C6, amended: \<open>applyDilation\<close> runs the pass \<open>iterations\<close> times (not at all when the
  count is zero or less, and the mask is returned as it is; so does the pipeline, which
  skips the call then). One pass keeps the length, and writes 255 exactly at the nine
  positions around every pixel that is set in the mask it received and lies off the
  outermost rows and columns (\<open>1 \<le> x \<le> width - 2\<close>, \<open>1 \<le> y \<le> height - 2\<close>);
  every other position keeps its value, so nothing set during a pass spreads within it.
\<close>

theorem dilation_iterations:
  "applyDilation edgeData w h n = (dilationPass w h ^^ nat n) edgeData \<and>
   length (dilationPass w h d) = length d \<and>
   (\<forall>j < length d. dilationPass w h d ! j = (if dilatedFrom w h d (int j) then 255 else d ! j)) \<and>
   (n \<le> 0 \<longrightarrow> applyDilation edgeData w h n = edgeData \<and> dilatedDataOf edgeData w h n = edgeData)"
  using dilationPass_mark [of w h d]
  by (simp add: applyDilation_funpow dilatedDataOf_def)

theorem dilation_iterations_witness:
  "dilationPass 3 3 [0, 0, 0, 0, 255, 0, 0, 0, 0] ! 0 = 255 \<and>
   applyDilation [0, 0, 0, 1, 255, 0, 7, 0, 0] 3 3 0 = [0, 0, 0, 1, 255, 0, 7, 0, 0] \<and>
   dilatedDataOf [0, 0, 0, 1, 255, 0, 7, 0, 0] 3 3 0 = [0, 0, 0, 1, 255, 0, 7, 0, 0]"
  using dilation_iterations [of "[0, 0, 0, 1, 255, 0, 7, 0, 0]" 3 3 0 "[0, 0, 0, 0, 255, 0, 0, 0, 0]"]
  by (simp add: dilatedFrom_def is255_def)

section \<open>Rectangle selection: the loop against the specification's words\<close>




























section \<open>Cropping\<close>









text \<open>
  C2: the width and height that the pipeline returns with a crop are those of the selected
  rectangle, not those of the cropped image. In the example of the specification (a
  rectangle of 600 by 400 at \<open>(200, 200)\<close> in a canvas of 1000 by 800, inset 10) the
  cropped image is 580 by 380 and the returned size is 600 by 400.
\<close>

theorem respond_returns_rectangle_size:
  "respond blackPixelBrowser
     \<lparr>canvas_width = 1000, canvas_height = 800, canvas_bitmap = replicate 3200000 255\<rparr>
     (Some \<lparr>rect_x = 200, rect_y = 200, rect_width = 600, rect_height = 400, rect_angle = 0\<rparr>)
     10 =
     Inr \<lparr>result_imageUrl = ''data:image/png;base64,crop'', result_width = 600,
          result_height = 400\<rparr> \<and>
   cropRegionOf
     \<lparr>canvas_width = 1000, canvas_height = 800, canvas_bitmap = replicate 3200000 255\<rparr>
     \<lparr>rect_x = 200, rect_y = 200, rect_width = 600, rect_height = 400, rect_angle = 0\<rparr> 10 =
     \<lparr>cropX = 210, cropY = 210, cropWidth = 580, cropHeight = 380\<rparr>"
  by (simp add: respond_def cropWithPerspectiveTransform_def blackPixelBrowser_def
        cropRegionOf_def insetOf_def Let_def)

section \<open>The entry point: what rejects and what falls back\<close>



lemma scaledSize_houseImage: "scaledSize houseImage = (800, 600)"
  by (simp add: scaledSize_def houseImage_def Let_def)








section \<open>Contour tracing: each trace collects one component\<close>

lemma item_put:
  "item (put a i v) j = (if i = j \<and> 0 \<le> i \<and> nat i < length a then Some v else item a j)"
  by (auto simp: item_def put_def nth_list_update)

lemma pixelIndex_inj:
  assumes "inBounds w h p" "inBounds w h q" "pixelIndex w p = pixelIndex w q"
  shows "p = q"
proof -
  obtain x y x' y' where [simp]: "p = (x, y)" "q = (x', y')" by (cases p, cases q) auto
  from assms have b: "0 \<le> x" "x < w" "0 \<le> x'" "x' < w" and e: "y * w + x = y' * w + x'"
    by (simp_all add: inBounds_def pixelIndex_def)
  have "(y * w + x) div w = y" "(y' * w + x') div w = y'"
    using b by simp_all
  with e have "y = y'" by simp
  with e show ?thesis by simp
qed

lemma fold_cons_if:
  "set (fold (\<lambda>k st. if P k then f k # st else st) ks st) = set st \<union> {f k | k. k \<in> set ks \<and> P k}"
  by (induction ks arbitrary: st) auto

lemma adjacent_offsets:
  "adjacent (x, y) q \<longleftrightarrow> (\<exists>dy \<in> set [-1, 0, 1]. \<exists>dx \<in> set [-1, 0, 1]. q = (x + dx, y + dy))"
proof -
  obtain qx qy where [simp]: "q = (qx, qy)" by (cases q)
  have "\<bar>x - qx\<bar> \<le> 1 \<longleftrightarrow> qx = x + (-1) \<or> qx = x + 0 \<or> qx = x + 1" by auto
  moreover have "\<bar>y - qy\<bar> \<le> 1 \<longleftrightarrow> qy = y + (-1) \<or> qy = y + 0 \<or> qy = y + 1" by auto
  ultimately show ?thesis by (auto simp: adjacent_def)
qed


lemma pushNeighbors_alt:
  "pushNeighbors edgeData visited w h x y stack =
     fold (\<lambda>dy st. fold (\<lambda>dx st.
             if (x + dx, y + dy) \<in> unvisited edgeData w h visited
             then (x + dx, y + dy) # st else st) [-1, 0, 1] st) [-1, 0, 1] stack"
proof -
  have eq: "(\<lambda>dx stack.
             let nx = x + dx; ny = y + dy
             in if 0 \<le> nx \<and> nx < w \<and> 0 \<le> ny \<and> ny < h
                then (let neighborIndex = ny * w + nx
                      in if item visited neighborIndex = Some 0 \<and>
                            item edgeData neighborIndex = Some 255
                         then (nx, ny) # stack else stack)
                else stack) =
        (\<lambda>dx st. if (x + dx, y + dy) \<in> unvisited edgeData w h visited
             then (x + dx, y + dy) # st else st)" for dy
    by (intro ext) (simp add: Let_def unvisited_def inBounds_def pixelIndex_def)
  show ?thesis
    unfolding pushNeighbors_def eq by (rule refl)
qed

lemma set_pushNeighbors:
  "set (pushNeighbors edgeData visited w h x y stack) =
     set stack \<union> {q. adjacent (x, y) q \<and> q \<in> unvisited edgeData w h visited}"
proof -
  let ?U = "unvisited edgeData w h visited"
  have inner: "set (fold (\<lambda>dx st. if (x + dx, y + dy) \<in> ?U then (x + dx, y + dy) # st else st)
                 dxs st) =
        set st \<union> {(x + dx, y + dy) | dx. dx \<in> set dxs \<and> (x + dx, y + dy) \<in> ?U}" for dy dxs st
    by (rule fold_cons_if)
  have outer: "set (fold (\<lambda>dy st. fold (\<lambda>dx st.
             if (x + dx, y + dy) \<in> ?U then (x + dx, y + dy) # st else st) dxs st) dys st) =
        set st \<union> {q. \<exists>dy \<in> set dys. \<exists>dx \<in> set dxs. q = (x + dx, y + dy) \<and> q \<in> ?U}"
    for dys dxs st
  proof (induction dys arbitrary: st)
    case Nil
    then show ?case by simp
  next
    case (Cons dy dys)
    show ?case
      unfolding fold_simps Cons.IH inner by auto
  qed
  show ?thesis
    unfolding pushNeighbors_alt outer adjacent_offsets by (rule arg_cong [where f = "\<lambda>A. set stack \<union> A"]) blast
qed


lemma reachable_subset:
  assumes "s \<in> unvisited edgeData w h visited0"
  shows "reachable edgeData w h visited0 s \<subseteq> unvisited edgeData w h visited0"
proof
  fix q assume "q \<in> reachable edgeData w h visited0 s"
  then have "(s, q) \<in> (adjacency (unvisited edgeData w h visited0))\<^sup>*"
    by (simp add: reachable_def)
  then show "q \<in> unvisited edgeData w h visited0"
    using assms by (induction rule: rtrancl_induct) (auto simp: adjacency_def)
qed

lemma unvisited_inBounds: "p \<in> unvisited edgeData w h v \<Longrightarrow> inBounds w h p"
  by (simp add: unvisited_def)

lemma unvisited_marks:
  assumes sub: "set contour \<subseteq> unvisited edgeData w h visited0"
    and m: "marks w visited0 contour visited"
  shows "unvisited edgeData w h visited = unvisited edgeData w h visited0 - set contour"
proof (intro set_eqI iffI)
  fix p assume p: "p \<in> unvisited edgeData w h visited"
  then have 0: "item visited (pixelIndex w p) = Some 0" by (simp add: unvisited_def)
  with m have no: "\<not> (\<exists>p' \<in> set contour. pixelIndex w p' = pixelIndex w p)"
    and "item visited0 (pixelIndex w p) = Some 0"
    by (auto simp: marks_def split: if_splits)
  with p show "p \<in> unvisited edgeData w h visited0 - set contour"
    by (auto simp: unvisited_def)
next
  fix p assume p: "p \<in> unvisited edgeData w h visited0 - set contour"
  have "\<not> (\<exists>p' \<in> set contour. pixelIndex w p' = pixelIndex w p)"
  proof
    assume "\<exists>p' \<in> set contour. pixelIndex w p' = pixelIndex w p"
    then obtain p' where p': "p' \<in> set contour" "pixelIndex w p' = pixelIndex w p" by blast
    with sub have "inBounds w h p'" by (auto dest: unvisited_inBounds)
    moreover from p have "inBounds w h p" by (auto dest: unvisited_inBounds)
    ultimately have "p' = p" using p'(2) by (rule pixelIndex_inj)
    with p p' show False by simp
  qed
  with m have "item visited (pixelIndex w p) = item visited0 (pixelIndex w p)"
    by (simp add: marks_def)
  with p show "p \<in> unvisited edgeData w h visited"
    by (simp add: unvisited_def)
qed

lemma marks_put:
  assumes m: "marks w visited0 contour visited"
    and 0: "item visited (pixelIndex w p) = Some 0"
  shows "marks w visited0 (contour @ [p]) (put visited (pixelIndex w p) 1)"
proof -
  from 0 have "0 \<le> pixelIndex w p \<and> nat (pixelIndex w p) < length visited"
    by (simp add: item_def split: if_splits)
  then show ?thesis
    using m by (auto simp: marks_def item_put)
qed


lemma traceInv_take:
  assumes inv: "traceInv edgeData w h visited0 s (visited, contour, (x, y) # stack)"
    and s0: "s \<in> unvisited edgeData w h visited0"
    and c: "item visited (y * w + x) = Some 0 \<and> item edgeData (y * w + x) = Some 255"
  shows "traceInv edgeData w h visited0 s
           (put visited (y * w + x) 1, contour @ [(x, y)],
            pushNeighbors edgeData (put visited (y * w + x) 1) w h x y stack)"
proof -
  let ?U0 = "unvisited edgeData w h visited0"
  let ?R = "reachable edgeData w h visited0 s"
  let ?p = "(x, y)"
  let ?v' = "put visited (y * w + x) 1"
  have idx: "pixelIndex w ?p = y * w + x" by (simp add: pixelIndex_def)
  from inv have d: "distinct contour" and cR: "set contour \<subseteq> ?R" and sR: "set stack \<subseteq> ?R"
    and pR: "?p \<in> ?R" and m: "marks w visited0 contour visited"
    and cl: "\<forall>p \<in> set contour. \<forall>q \<in> ?U0. adjacent p q \<longrightarrow> q \<in> set contour \<or> q \<in> set (?p # stack)"
    and st: "s \<in> set contour \<or> s \<in> set (?p # stack)"
    by (simp_all add: traceInv_def)
  have RU: "?R \<subseteq> ?U0" using s0 by (rule reachable_subset)
  from pR RU have pU0: "?p \<in> ?U0" by blast
  then have pb: "inBounds w h ?p" by (rule unvisited_inBounds)
  from cR RU have cU: "set contour \<subseteq> ?U0" by blast
  have "?p \<in> unvisited edgeData w h visited"
    using c pb by (simp add: unvisited_def idx)
  then have pc: "?p \<notin> set contour"
    using unvisited_marks [OF cU m] by simp
  have m': "marks w visited0 (contour @ [?p]) ?v'"
    using marks_put [OF m, of ?p] c by (simp add: idx)
  have cU': "set (contour @ [?p]) \<subseteq> ?U0" using cU pU0 by simp
  have U': "unvisited edgeData w h ?v' = ?U0 - set (contour @ [?p])"
    using cU' m' by (rule unvisited_marks)
  have stack': "set (pushNeighbors edgeData ?v' w h x y stack) =
      set stack \<union> {q. adjacent ?p q \<and> q \<in> ?U0 - set (contour @ [?p])}"
    by (simp only: set_pushNeighbors U')
  have step: "q \<in> ?R" if "adjacent ?p q" "q \<in> ?U0" for q
  proof -
    have "(?p, q) \<in> adjacency ?U0" using that pU0 by (simp add: adjacency_def)
    moreover have "(s, ?p) \<in> (adjacency ?U0)\<^sup>*" using pR by (simp add: reachable_def)
    ultimately have "(s, q) \<in> (adjacency ?U0)\<^sup>*" by (rule rtrancl_into_rtrancl [rotated])
    then show ?thesis by (simp add: reachable_def)
  qed
  have 1: "distinct (contour @ [?p])" using d pc by simp
  have 2: "set (contour @ [?p]) \<subseteq> ?R" using cR pR by simp
  have 3: "set (pushNeighbors edgeData ?v' w h x y stack) \<subseteq> ?R"
    unfolding stack' using sR step by blast
  have 4: "\<forall>p \<in> set (contour @ [?p]). \<forall>q \<in> ?U0. adjacent p q \<longrightarrow>
      q \<in> set (contour @ [?p]) \<or> q \<in> set (pushNeighbors edgeData ?v' w h x y stack)"
    unfolding stack' using cl by auto
  have 5: "s \<in> set (contour @ [?p]) \<or> s \<in> set (pushNeighbors edgeData ?v' w h x y stack)"
    unfolding stack' using st by auto
  show ?thesis
    unfolding traceInv_def using 1 2 3 4 5 m' by simp
qed

lemma traceInv_skip:
  assumes inv: "traceInv edgeData w h visited0 s (visited, contour, (x, y) # stack)"
    and s0: "s \<in> unvisited edgeData w h visited0"
    and c: "\<not> (item visited (y * w + x) = Some 0 \<and> item edgeData (y * w + x) = Some 255)"
  shows "traceInv edgeData w h visited0 s (visited, contour, stack)"
proof -
  let ?U0 = "unvisited edgeData w h visited0"
  let ?R = "reachable edgeData w h visited0 s"
  let ?p = "(x, y)"
  have idx: "pixelIndex w ?p = y * w + x" by (simp add: pixelIndex_def)
  from inv have d: "distinct contour" and cR: "set contour \<subseteq> ?R" and sR: "set stack \<subseteq> ?R"
    and pR: "?p \<in> ?R" and m: "marks w visited0 contour visited"
    and cl: "\<forall>p \<in> set contour. \<forall>q \<in> ?U0. adjacent p q \<longrightarrow> q \<in> set contour \<or> q \<in> set (?p # stack)"
    and st: "s \<in> set contour \<or> s \<in> set (?p # stack)"
    by (simp_all add: traceInv_def)
  have RU: "?R \<subseteq> ?U0" using s0 by (rule reachable_subset)
  from pR RU have pU0: "?p \<in> ?U0" by blast
  from cR RU have cU: "set contour \<subseteq> ?U0" by blast
  have "?p \<notin> unvisited edgeData w h visited"
    using c pU0 by (simp add: unvisited_def idx)
  then have pc: "?p \<in> set contour"
    using unvisited_marks [OF cU m] pU0 by simp
  have 4: "\<forall>p \<in> set contour. \<forall>q \<in> ?U0. adjacent p q \<longrightarrow> q \<in> set contour \<or> q \<in> set stack"
    using cl pc by auto
  have 5: "s \<in> set contour \<or> s \<in> set stack"
    using st pc by auto
  show ?thesis
    unfolding traceInv_def using d cR sR m 4 5 by simp
qed

lemma traceInv_done:
  assumes inv: "traceInv edgeData w h visited0 s (visited, contour, [])"
    and s0: "s \<in> unvisited edgeData w h visited0"
  shows "set contour = reachable edgeData w h visited0 s"
proof
  from inv show "set contour \<subseteq> reachable edgeData w h visited0 s"
    by (simp add: traceInv_def)
next
  let ?U0 = "unvisited edgeData w h visited0"
  from inv have sc: "s \<in> set contour"
    and cl: "\<forall>p \<in> set contour. \<forall>q \<in> ?U0. adjacent p q \<longrightarrow> q \<in> set contour"
    by (simp_all add: traceInv_def)
  show "reachable edgeData w h visited0 s \<subseteq> set contour"
  proof
    fix q assume "q \<in> reachable edgeData w h visited0 s"
    then have "(s, q) \<in> (adjacency ?U0)\<^sup>*" by (simp add: reachable_def)
    then show "q \<in> set contour"
      using sc cl by (induction rule: rtrancl_induct) (auto simp: adjacency_def)
  qed
qed

lemma traceContourLoop_correct:
  assumes "traceInv edgeData w h visited0 s st"
    and "s \<in> unvisited edgeData w h visited0"
    and "traceContourLoop edgeData w h st = (visited', contour')"
  shows "distinct contour' \<and> set contour' = reachable edgeData w h visited0 s \<and>
         marks w visited0 contour' visited'"
  using assms
proof (induction edgeData w h st rule: traceContourLoop.induct)
  case (1 edgeData w h visited contour)
  from traceInv_done [OF "1.prems"(1,2)] "1.prems"
  show ?case by (simp add: traceInv_def)
next
  case (2 edgeData w h visited contour x y stack)
  show ?case
  proof (cases "item visited (y * w + x) = Some 0 \<and> item edgeData (y * w + x) = Some 255")
    case True
    have "traceInv edgeData w h visited0 s
           (put visited (y * w + x) 1, contour @ [(x, y)],
            pushNeighbors edgeData (put visited (y * w + x) 1) w h x y stack)"
      using "2.prems"(1,2) True by (rule traceInv_take)
    moreover have "traceContourLoop edgeData w h
           (put visited (y * w + x) 1, contour @ [(x, y)],
            pushNeighbors edgeData (put visited (y * w + x) 1) w h x y stack) = (visited', contour')"
      using "2.prems"(3) True by (simp add: Let_def)
    ultimately show ?thesis
      using "2.IH"(1) [OF refl True] "2.prems"(2) by blast
  next
    case False
    have "traceInv edgeData w h visited0 s (visited, contour, stack)"
      using "2.prems"(1,2) False by (rule traceInv_skip)
    moreover have "traceContourLoop edgeData w h (visited, contour, stack) = (visited', contour')"
      using "2.prems"(3) False by (simp add: Let_def)
    ultimately show ?thesis
      using "2.IH"(2) [OF refl False] "2.prems"(2) by blast
  qed
qed


lemma traceContour_correct:
  assumes s0: "(x, y) \<in> unvisited edgeData w h visited"
    and t: "traceContour edgeData visited w h x y = (visited', contour)"
  shows "distinct contour \<and> set contour = reachable edgeData w h visited (x, y) \<and>
         marks w visited contour visited'"
proof -
  have "traceInv edgeData w h visited (x, y) (visited, [], [(x, y)])"
    by (simp add: traceInv_def marks_def reachable_def)
  then show ?thesis
    using s0 t unfolding traceContour_def by (rule traceContourLoop_correct)
qed

lemma sym_adjacency: "sym (adjacency A)"
  by (auto simp: sym_def adjacency_def adjacent_def)

lemma adjacency_rtrancl_sym:
  "(p, q) \<in> (adjacency A)\<^sup>* \<Longrightarrow> (q, p) \<in> (adjacency A)\<^sup>*"
  using sym_rtrancl [OF sym_adjacency, of A] by (rule symD)

lemma component_eq:
  assumes "q \<in> component edgeData w h p"
  shows "component edgeData w h q = component edgeData w h p"
proof -
  let ?r = "adjacency (setPixels edgeData w h)"
  from assms have pq: "(p, q) \<in> ?r\<^sup>*" by (simp add: component_def)
  then have qp: "(q, p) \<in> ?r\<^sup>*" by (rule adjacency_rtrancl_sym)
  show ?thesis
    unfolding component_def using pq qp by (auto intro: rtrancl_trans)
qed

lemma component_self: "p \<in> component edgeData w h p"
  by (simp add: component_def)

lemma component_subset:
  assumes "p \<in> setPixels edgeData w h"
  shows "component edgeData w h p \<subseteq> setPixels edgeData w h"
proof
  fix q assume "q \<in> component edgeData w h p"
  then have "(p, q) \<in> (adjacency (setPixels edgeData w h))\<^sup>*" by (simp add: component_def)
  then show "q \<in> setPixels edgeData w h"
    using assms by (induction rule: rtrancl_induct) (auto simp: adjacency_def)
qed

lemma finite_inBounds: "finite {p. inBounds w h p}"
proof -
  have "{p. inBounds w h p} \<subseteq> {0..<w} \<times> {0..<h}"
    by (auto simp: inBounds_def)
  then show ?thesis by (rule finite_subset) simp
qed

lemma finite_setPixels: "finite (setPixels edgeData w h)"
  by (rule finite_subset [OF _ finite_inBounds [of w h]]) (auto simp: setPixels_def)

lemma unvisited_wellMarked:
  assumes "wellMarked edgeData visited"
  shows "unvisited edgeData w h visited = setPixels edgeData w h - marked w h visited"
proof -
  have "item visited i = Some 0 \<longleftrightarrow> item visited i \<noteq> Some 1" if "item edgeData i = Some 255" for i
    using assms that unfolding wellMarked_def by (metis option.distinct(1) option.inject zero_neq_one)
  then show ?thesis
    by (auto simp: unvisited_def setPixels_def marked_def)
qed

lemma reachable_component:
  assumes wm: "wellMarked edgeData visited"
    and closed: "\<forall>p \<in> marked w h visited. \<forall>q \<in> setPixels edgeData w h.
                   adjacent p q \<longrightarrow> q \<in> marked w h visited"
    and p: "p \<in> unvisited edgeData w h visited"
  shows "reachable edgeData w h visited p = component edgeData w h p"
proof (intro set_eqI iffI)
  let ?S = "setPixels edgeData w h" and ?U = "unvisited edgeData w h visited"
  have US: "?U = ?S - marked w h visited" using wm by (rule unvisited_wellMarked)
  {
    fix q assume "q \<in> reachable edgeData w h visited p"
    then have "(p, q) \<in> (adjacency ?U)\<^sup>*" by (simp add: reachable_def)
    moreover have "adjacency ?U \<subseteq> adjacency ?S" by (auto simp: adjacency_def US)
    ultimately have "(p, q) \<in> (adjacency ?S)\<^sup>*" by (metis rtrancl_mono subsetD)
    then show "q \<in> component edgeData w h p" by (simp add: component_def)
  }
  {
    fix q assume "q \<in> component edgeData w h p"
    then have "(p, q) \<in> (adjacency ?S)\<^sup>*" by (simp add: component_def)
    then have "q \<in> ?U \<and> (p, q) \<in> (adjacency ?U)\<^sup>*"
    proof (induction rule: rtrancl_induct)
      case base
      then show ?case using p by simp
    next
      case (step q' q)
      from step.hyps(2) have q: "q \<in> ?S" "q' \<in> ?S" "adjacent q' q" "adjacent q q'"
        by (auto simp: adjacency_def adjacent_def)
      from step.IH have q': "q' \<in> ?U" by simp
      have "q \<notin> marked w h visited"
      proof
        assume "q \<in> marked w h visited"
        with closed q have "q' \<in> marked w h visited" by blast
        with q' US show False by simp
      qed
      with q US have qU: "q \<in> ?U" by simp
      with q' q have "(q', q) \<in> adjacency ?U" by (simp add: adjacency_def)
      with step.IH qU show ?case by (auto intro: rtrancl_into_rtrancl)
    qed
    then show "q \<in> reachable edgeData w h visited p" by (simp add: reachable_def)
  }
qed


lemma fold_nested:
  "fold (\<lambda>y st. fold (\<lambda>x st. f x y st) xs st) ys st =
   fold (\<lambda>(x, y) st. f x y st) (concat (map (\<lambda>y. map (\<lambda>x. (x, y)) xs) ys)) st"
  by (induction ys arbitrary: st) (simp_all add: fold_map comp_def)

lemma findContoursScan_scanOrder:
  "findContoursScan edgeData w h =
     fold (\<lambda>(x, y) st. scanStep edgeData w h x y st) (scanOrder w h)
       (replicate (length edgeData) 0, [])"
  unfolding findContoursScan_def scanOrder_def by (rule fold_nested)

lemma set_scanOrder: "set (scanOrder w h) = {p. inBounds w h p}"
  by (auto simp: scanOrder_def inBounds_def)

lemma fold_prefix_invariant:
  assumes "P pre s"
    and "\<And>pre k s. P pre s \<Longrightarrow> k \<in> set ks \<Longrightarrow> P (pre @ [k]) (f k s)"
  shows "P (pre @ ks) (fold f ks s)"
  using assms
proof (induction ks arbitrary: pre s)
  case Nil
  then show ?case by simp
next
  case (Cons k ks)
  have "P ((pre @ [k]) @ ks) (fold f ks (f k s))"
    by (rule Cons.IH) (simp_all add: Cons.prems)
  then show ?case by simp
qed

lemma scanInv_initial: "scanInv edgeData w h [] (replicate (length edgeData) 0, [])"
proof -
  have "wellMarked edgeData (replicate (length edgeData) 0)"
    by (simp add: wellMarked_def item_def)
  moreover have "marked w h (replicate (length edgeData) 0) = {}"
    by (auto simp: marked_def item_def)
  ultimately show ?thesis by (simp add: scanInv_def)
qed

lemma marked_marks:
  assumes m: "marks w visited contour visited'"
    and c: "set contour \<subseteq> unvisited edgeData w h visited"
  shows "marked w h visited' = marked w h visited \<union> set contour"
proof (intro set_eqI iffI)
  fix p assume "p \<in> marked w h visited'"
  then have b: "inBounds w h p" and 1: "item visited' (pixelIndex w p) = Some 1"
    by (simp_all add: marked_def)
  show "p \<in> marked w h visited \<union> set contour"
  proof (cases "\<exists>p' \<in> set contour. pixelIndex w p' = pixelIndex w p")
    case True
    then obtain p' where p': "p' \<in> set contour" "pixelIndex w p' = pixelIndex w p" by blast
    with c have "inBounds w h p'" by (auto dest: unvisited_inBounds)
    then have "p' = p" using b p'(2) by (rule pixelIndex_inj)
    with p' show ?thesis by simp
  next
    case False
    with m 1 have "item visited (pixelIndex w p) = Some 1" by (simp add: marks_def)
    with b show ?thesis by (simp add: marked_def)
  qed
next
  fix p assume "p \<in> marked w h visited \<union> set contour"
  then show "p \<in> marked w h visited'"
  proof
    assume p: "p \<in> marked w h visited"
    then have "item visited (pixelIndex w p) = Some 1" by (simp add: marked_def)
    with m have "item visited' (pixelIndex w p) = Some 1" by (simp add: marks_def)
    with p show ?thesis by (simp add: marked_def)
  next
    assume p: "p \<in> set contour"
    with m have "item visited' (pixelIndex w p) = Some 1" by (auto simp: marks_def)
    moreover from p c have "inBounds w h p" by (auto dest: unvisited_inBounds)
    ultimately show ?thesis by (simp add: marked_def)
  qed
qed

lemma wellMarked_marks:
  assumes wm: "wellMarked edgeData visited"
    and m: "marks w visited contour visited'"
    and c: "set contour \<subseteq> unvisited edgeData w h visited"
  shows "wellMarked edgeData visited'"
  unfolding wellMarked_def
proof
  fix i
  show "if item edgeData i = None then item visited' i = None
        else item visited' i = Some 0 \<or> item visited' i = Some 1"
  proof (cases "\<exists>p \<in> set contour. pixelIndex w p = i")
    case True
    then obtain p where "p \<in> set contour" "pixelIndex w p = i" by blast
    with c have "item edgeData i = Some 255" by (auto simp: unvisited_def)
    moreover from True m have "item visited' i = Some 1" by (simp add: marks_def)
    ultimately show ?thesis by simp
  next
    case False
    with m have "item visited' i = item visited i" by (simp add: marks_def)
    moreover from wm have "if item edgeData i = None then item visited i = None
        else item visited i = Some 0 \<or> item visited i = Some 1"
      unfolding wellMarked_def by (rule spec)
    ultimately show ?thesis by (simp only:)
  qed
qed


lemma scanInv_step:
  assumes inv: "scanInv edgeData w h seen st" and b: "inBounds w h (x, y)"
  shows "scanInv edgeData w h (seen @ [(x, y)]) (scanStep edgeData w h x y st)"
proof -
  obtain visited contours where st: "st = (visited, contours)" by (cases st)
  let ?S = "setPixels edgeData w h" and ?M = "marked w h visited"
  let ?p = "(x, y)"
  have idx: "pixelIndex w ?p = y * w + x" by (simp add: pixelIndex_def)
  note I = inv [unfolded scanInv_def st prod.case]
  have wm: "wellMarked edgeData visited" using I by (elim conjE)
  have MS: "?M \<subseteq> ?S" using I by (elim conjE)
  have closed: "\<forall>p \<in> ?M. \<forall>q \<in> ?S. adjacent p q \<longrightarrow> q \<in> ?M" using I by (elim conjE)
  have seen: "\<forall>p \<in> set seen. p \<in> ?S \<longrightarrow> p \<in> ?M" using I by (elim conjE)
  have kept: "set (map set contours) =
          {C. \<exists>p \<in> ?M. C = component edgeData w h p \<and> 10 < card C}"
    using I by (elim conjE)
  have dis: "distinct (concat contours)" using I by (elim conjE)
  have sub: "set (concat contours) \<subseteq> ?M" using I by (elim conjE)
  have US: "unvisited edgeData w h visited = ?S - ?M"
    using wm by (rule unvisited_wellMarked)
  show ?thesis
  proof (cases "item edgeData (y * w + x) = Some 255 \<and> item visited (y * w + x) = Some 0")
    case False
    then have "?p \<notin> unvisited edgeData w h visited"
      by (auto simp: unvisited_def idx)
    with US have "?p \<in> ?S \<longrightarrow> ?p \<in> ?M" by simp
    with seen have "\<forall>p \<in> set (seen @ [?p]). p \<in> ?S \<longrightarrow> p \<in> ?M" by simp
    moreover have "scanStep edgeData w h x y st = (visited, contours)"
      unfolding scanStep_def st prod.case Let_def by (rule if_not_P [OF False])
    ultimately show ?thesis
      using wm MS closed kept dis sub by (simp only: scanInv_def prod.case simp_thms)
  next
    case True
    then have pU: "?p \<in> unvisited edgeData w h visited"
      using b by (simp add: unvisited_def idx)
    obtain visited' contour where t: "traceContour edgeData visited w h x y = (visited', contour)"
      by (cases "traceContour edgeData visited w h x y")
    let ?C = "component edgeData w h ?p"
    from traceContour_correct [OF pU t]
    have dc: "distinct contour" and m: "marks w visited contour visited'"
      and "set contour = reachable edgeData w h visited ?p"
      by simp_all
    then have sc: "set contour = ?C"
      using reachable_component [OF wm closed pU] by simp
    have cU: "set contour \<subseteq> unvisited edgeData w h visited"
      using reachable_subset [OF pU] \<open>set contour = reachable edgeData w h visited ?p\<close> by simp
    have pS: "?p \<in> ?S" using pU US by simp
    have CS: "?C \<subseteq> ?S" using pS by (rule component_subset)
    have M': "marked w h visited' = ?M \<union> ?C"
      using marked_marks [OF m cU] sc by simp
    have 1: "wellMarked edgeData visited'" using wm m cU by (rule wellMarked_marks)
    have 2: "?M \<union> ?C \<subseteq> ?S" using MS CS by simp
    have 3: "\<forall>p \<in> ?M \<union> ?C. \<forall>q \<in> ?S. adjacent p q \<longrightarrow> q \<in> ?M \<union> ?C"
    proof (intro ballI impI)
      fix p' q assume p': "p' \<in> ?M \<union> ?C" and q: "q \<in> ?S" and a: "adjacent p' q"
      from p' show "q \<in> ?M \<union> ?C"
      proof
        assume "p' \<in> ?M" with closed q a show ?thesis by blast
      next
        assume pc: "p' \<in> ?C"
        with CS have "p' \<in> ?S" by blast
        with q a have "(p', q) \<in> adjacency ?S" by (simp add: adjacency_def)
        moreover from pc have "(?p, p') \<in> (adjacency ?S)\<^sup>*" by (simp add: component_def)
        ultimately have "(?p, q) \<in> (adjacency ?S)\<^sup>*" by (rule rtrancl_into_rtrancl [rotated])
        then show ?thesis by (simp add: component_def)
      qed
    qed
    have 4: "\<forall>p \<in> set (seen @ [?p]). p \<in> ?S \<longrightarrow> p \<in> ?M \<union> ?C"
      using seen component_self [of ?p edgeData w h] by auto
    have len: "length contour = card ?C"
      using distinct_card [OF dc] sc by simp
    have pC: "?p \<in> ?C" by (rule component_self)
    have ceq: "component edgeData w h q = ?C" if "q \<in> ?C" for q
      using that by (rule component_eq)
    let ?A = "{X. \<exists>q \<in> ?M. X = component edgeData w h q \<and> 10 < card X}"
    let ?B = "{X. \<exists>q \<in> ?C. X = component edgeData w h q \<and> 10 < card X}"
    have new: "?B = (if 10 < card ?C then {?C} else {})"
    proof (cases "10 < card ?C")
      case True
      have "?B = {?C}"
      proof (intro set_eqI iffI)
        fix X assume "X \<in> ?B"
        then obtain q where "q \<in> ?C" "X = component edgeData w h q" by blast
        then show "X \<in> {?C}" using ceq by simp
      next
        fix X assume "X \<in> {?C}"
        then have "X = component edgeData w h ?p \<and> 10 < card X" using True by simp
        with pC show "X \<in> ?B" by blast
      qed
      with True show ?thesis by simp
    next
      case False
      have "?B = {}"
      proof (intro set_eqI iffI)
        fix X assume "X \<in> ?B"
        then obtain q where "q \<in> ?C" "X = component edgeData w h q" "10 < card X" by blast
        with ceq False show "X \<in> {}" by simp
      qed simp
      with False show ?thesis by simp
    qed
    have split: "{X. \<exists>q \<in> ?M \<union> ?C. X = component edgeData w h q \<and> 10 < card X} = ?A \<union> ?B"
      by (intro set_eqI iffI) (simp_all only: mem_Collect_eq bex_Un Un_iff)
    let ?contours' = "if length contour > 10 then contours @ [contour] else contours"
    have 5: "set (map set ?contours') =
        {X. \<exists>q \<in> ?M \<union> ?C. X = component edgeData w h q \<and> 10 < card X}"
    proof (cases "10 < card ?C")
      case True
      then have "set (map set ?contours') = set (map set contours) \<union> {?C}"
        using len sc by simp
      then show ?thesis unfolding split new kept using True by simp
    next
      case False
      then have "set (map set ?contours') = set (map set contours)"
        using len by simp
      then show ?thesis unfolding split new kept using False by simp
    qed
    have disj: "set (concat contours) \<inter> set contour = {}"
      using sub cU US by blast
    have 6: "distinct (concat ?contours')"
      using dis dc disj by simp
    have 7: "set (concat ?contours') \<subseteq> ?M \<union> ?C"
      using sub sc by auto
    have "scanStep edgeData w h x y st = (visited', ?contours')"
      unfolding scanStep_def st prod.case Let_def if_P [OF True] t by (rule refl)
    then show ?thesis
      using 1 2 3 4 5 6 7 by (simp only: scanInv_def M' prod.case simp_thms)
  qed
qed

lemma scanInv_final:
  "scanInv edgeData w h (scanOrder w h) (findContoursScan edgeData w h)"
proof -
  have "scanInv edgeData w h ([] @ scanOrder w h)
          (fold (\<lambda>(x, y) st. scanStep edgeData w h x y st) (scanOrder w h)
             (replicate (length edgeData) 0, []))"
  proof (rule fold_prefix_invariant [where P = "scanInv edgeData w h"])
    show "scanInv edgeData w h [] (replicate (length edgeData) 0, [])"
      by (rule scanInv_initial)
  next
    fix pre k s
    assume inv: "scanInv edgeData w h pre s" and k: "k \<in> set (scanOrder w h)"
    obtain x y where xy: "k = (x, y)" by (cases k)
    from k have "inBounds w h (x, y)" by (simp add: set_scanOrder xy)
    with inv have "scanInv edgeData w h (pre @ [(x, y)]) (scanStep edgeData w h x y s)"
      by (rule scanInv_step)
    then show "scanInv edgeData w h (pre @ [k])
        ((\<lambda>(x, y) st. scanStep edgeData w h x y st) k s)"
      by (simp add: xy)
  qed
  then show ?thesis by (simp add: findContoursScan_scanOrder)
qed

lemma findContours_components:
  "set (map set (findContours edgeData w h)) =
     {C. \<exists>p \<in> setPixels edgeData w h. C = component edgeData w h p \<and> 10 < card C}"
proof -
  obtain visited contours where f: "findContoursScan edgeData w h = (visited, contours)"
    by (cases "findContoursScan edgeData w h")
  note I = scanInv_final [of edgeData w h, unfolded scanInv_def f prod.case]
  have MS: "marked w h visited \<subseteq> setPixels edgeData w h" using I by (elim conjE)
  have seen: "\<forall>p \<in> set (scanOrder w h). p \<in> setPixels edgeData w h \<longrightarrow> p \<in> marked w h visited"
    using I by (elim conjE)
  have kept: "set (map set contours) =
          {C. \<exists>p \<in> marked w h visited. C = component edgeData w h p \<and> 10 < card C}"
    using I by (elim conjE)
  have "setPixels edgeData w h \<subseteq> marked w h visited"
    using seen by (auto simp: set_scanOrder setPixels_def)
  with MS have "marked w h visited = setPixels edgeData w h" by blast
  with kept show ?thesis by (simp add: findContours_def f)
qed

lemma findContours_distinct: "distinct (concat (findContours edgeData w h))"
proof -
  obtain visited contours where f: "findContoursScan edgeData w h = (visited, contours)"
    by (cases "findContoursScan edgeData w h")
  from scanInv_final [of edgeData w h] have "distinct (concat contours)"
    unfolding scanInv_def f prod.case by (elim conjE)
  then show ?thesis by (simp add: findContours_def f)
qed

lemma component_traced:
  assumes p: "(x, y) \<in> setPixels edgeData w h"
  shows "component edgeData w h (x, y) =
           set (snd (traceContour edgeData (replicate (length edgeData) 0) w h x y))"
proof -
  let ?v = "replicate (length edgeData) 0"
  have wm: "wellMarked edgeData ?v" by (simp add: wellMarked_def item_def)
  have M: "marked w h ?v = {}" by (auto simp: marked_def item_def)
  have U: "(x, y) \<in> unvisited edgeData w h ?v"
    using p unfolding unvisited_wellMarked [OF wm] M by simp
  have closed: "\<forall>p \<in> marked w h ?v. \<forall>q \<in> setPixels edgeData w h.
      adjacent p q \<longrightarrow> q \<in> marked w h ?v"
    unfolding M by simp
  obtain v' c where t: "traceContour edgeData ?v w h x y = (v', c)"
    by (cases "traceContour edgeData ?v w h x y")
  from traceContour_correct [OF U t] reachable_component [OF wm closed U]
  show ?thesis by (simp add: t)
qed

lemma findContours_tenInARow: "findContours tenInARow 10 1 = []"
  by code_simp

lemma traceContour_tenInARow: "snd (traceContour tenInARow (replicate (length tenInARow) 0) 10 1 0 0) =
  [(0, 0), (1, 0), (2, 0), (3, 0), (4, 0), (5, 0), (6, 0), (7, 0), (8, 0), (9, 0)]"
  by code_simp

lemma findContours_twoRows: "findContours twoRows 12 3 =
  [[(0, 0), (1, 0), (2, 0), (3, 0), (4, 0), (5, 0), (6, 0), (7, 0), (8, 0), (9, 0), (10, 0)]]"
  by code_simp

lemma findContours_twoLongRows: "findContours twoLongRows 12 3 =
  [[(0, 0), (1, 0), (2, 0), (3, 0), (4, 0), (5, 0), (6, 0), (7, 0), (8, 0), (9, 0), (10, 0), (11, 0)],
   [(0, 2), (1, 2), (2, 2), (3, 2), (4, 2), (5, 2), (6, 2), (7, 2), (8, 2), (9, 2), (10, 2), (11, 2)]]"
  by code_simp


lemma traceContour_twoRows_top:
  "snd (traceContour twoRows (replicate (length twoRows) 0) 12 3 0 0) =
     [(0, 0), (1, 0), (2, 0), (3, 0), (4, 0), (5, 0), (6, 0), (7, 0), (8, 0), (9, 0), (10, 0)]"
  by code_simp

lemma traceContour_twoRows_bottom:
  "snd (traceContour twoRows (replicate (length twoRows) 0) 12 3 0 2) =
     [(0, 2), (1, 2), (2, 2), (3, 2), (4, 2), (5, 2), (6, 2), (7, 2), (8, 2), (9, 2)]"
  by code_simp

lemma setPixels_examples:
  "(0, 0) \<in> setPixels tenInARow 10 1" "(0, 0) \<in> setPixels twoRows 12 3"
  "(0, 2) \<in> setPixels twoRows 12 3"
  by (simp_all add: setPixels_def inBounds_def pixelIndex_def item_def tenInARow_def
        twoRows_def nth_append)

lemma component_tenInARow:
  "component tenInARow 10 1 (0, 0) =
     set [(0, 0), (1, 0), (2, 0), (3, 0), (4, 0), (5, 0), (6, 0), (7, 0), (8, 0), (9, 0)]"
  by (simp only: component_traced [OF setPixels_examples(1)] traceContour_tenInARow)

lemma component_twoRows_top:
  "component twoRows 12 3 (0, 0) =
     set [(0, 0), (1, 0), (2, 0), (3, 0), (4, 0), (5, 0), (6, 0), (7, 0), (8, 0), (9, 0), (10, 0)]"
  by (simp only: component_traced [OF setPixels_examples(2)] traceContour_twoRows_top)

lemma component_twoRows_bottom:
  "component twoRows 12 3 (0, 2) =
     set [(0, 2), (1, 2), (2, 2), (3, 2), (4, 2), (5, 2), (6, 2), (7, 2), (8, 2), (9, 2)]"
  by (simp only: component_traced [OF setPixels_examples(3)] traceContour_twoRows_bottom)

lemma card_examples:
  "card (component tenInARow 10 1 (0, 0)) = 10"
  "card (component twoRows 12 3 (0, 0)) = 11"
  "card (component twoRows 12 3 (0, 2)) = 10"
  unfolding component_tenInARow component_twoRows_top component_twoRows_bottom
  by (subst distinct_card; simp)+

text \<open>
  C7, as stated, fails: the tracer keeps a contour when \<open>contour.length > 10\<close>, so a
  component of exactly 10 pixels is discarded. In the mask of 10 by 1 with every pixel
  set, the component of \<open>(0, 0)\<close> has 10 pixels and the output is empty.
\<close>

theorem ten_pixels_counterexample:
  "(0, 0) \<in> setPixels tenInARow 10 1 \<and>
   card (component tenInARow 10 1 (0, 0)) = 10 \<and>
   findContours tenInARow 10 1 = []"
  by (simp only: setPixels_examples card_examples findContours_tenInARow simp_thms)

text \<open>
  C7, amended: the tracer discards exactly the contours of 10 pixels or fewer. For every
  mask and every set pixel, the 8-connected component of the pixel is the point set of
  a contour of the output if and only if it has more than 10 pixels; and every contour
  of the output is the component of a set pixel.
\<close>

theorem findContours_keeps_components_over_ten:
  "(\<forall>p \<in> setPixels edgeData w h.
      (\<exists>c \<in> set (findContours edgeData w h). set c = component edgeData w h p) =
      (10 < card (component edgeData w h p))) \<and>
   (\<forall>c \<in> set (findContours edgeData w h).
      \<exists>p \<in> setPixels edgeData w h. set c = component edgeData w h p)"
proof (intro conjI ballI)
  fix p assume p: "p \<in> setPixels edgeData w h"
  have "(component edgeData w h p \<in> set (map set (findContours edgeData w h))) =
        (10 < card (component edgeData w h p))"
  proof
    assume "component edgeData w h p \<in> set (map set (findContours edgeData w h))"
    then show "10 < card (component edgeData w h p)"
      unfolding findContours_components by blast
  next
    assume "10 < card (component edgeData w h p)"
    with p show "component edgeData w h p \<in> set (map set (findContours edgeData w h))"
      unfolding findContours_components by blast
  qed
  moreover have "(component edgeData w h p \<in> set (map set (findContours edgeData w h))) =
      (\<exists>c \<in> set (findContours edgeData w h). set c = component edgeData w h p)"
    by auto
  ultimately show "(\<exists>c \<in> set (findContours edgeData w h). set c = component edgeData w h p) =
      (10 < card (component edgeData w h p))"
    by simp
next
  fix c assume "c \<in> set (findContours edgeData w h)"
  then have "set c \<in> set (map set (findContours edgeData w h))" by simp
  then show "\<exists>p \<in> setPixels edgeData w h. set c = component edgeData w h p"
    unfolding findContours_components by blast
qed

theorem findContours_keeps_components_over_ten_witness:
  "(0, 0) \<in> setPixels twoRows 12 3 \<and> 10 < card (component twoRows 12 3 (0, 0)) \<and>
   (\<exists>c \<in> set (findContours twoRows 12 3). set c = component twoRows 12 3 (0, 0)) \<and>
   (0, 2) \<in> setPixels twoRows 12 3 \<and> card (component twoRows 12 3 (0, 2)) = 10 \<and>
   \<not> (\<exists>c \<in> set (findContours twoRows 12 3). set c = component twoRows 12 3 (0, 2))"
  using findContours_keeps_components_over_ten [of twoRows 12 3]
    setPixels_examples(2,3) card_examples(2,3)
  by simp

text \<open>
  C9: for every mask, no pixel coordinate appears twice in the contours that
  \<open>findContours\<close> returns: not within one contour and not in two contours.
\<close>

theorem findContours_disjoint:
  "distinct (concat (findContours edgeData w h)) \<and>
   (\<forall>c \<in> set (findContours edgeData w h). distinct c) \<and>
   (\<forall>i < length (findContours edgeData w h). \<forall>j < length (findContours edgeData w h).
      i \<noteq> j \<longrightarrow>
      set (findContours edgeData w h ! i) \<inter> set (findContours edgeData w h ! j) = {})"
proof -
  have d: "distinct (concat (findContours edgeData w h))"
    by (rule findContours_distinct)
  have "distinct (concat cs) \<Longrightarrow>
      (\<forall>c \<in> set cs. distinct c) \<and>
      (\<forall>i < length cs. \<forall>j < length cs. i \<noteq> j \<longrightarrow> set (cs ! i) \<inter> set (cs ! j) = {})"
    for cs :: "point list list"
  proof (induction cs)
    case Nil
    then show ?case by simp
  next
    case (Cons c cs)
    from Cons.prems have dcs: "distinct (concat cs)" and dc: "distinct c"
      and un: "set c \<inter> \<Union> (set ` set cs) = {}"
      by simp_all
    have ih: "(\<forall>c \<in> set cs. distinct c) \<and>
      (\<forall>i < length cs. \<forall>j < length cs. i \<noteq> j \<longrightarrow> set (cs ! i) \<inter> set (cs ! j) = {})"
      using dcs by (rule Cons.IH)
    have dj: "\<forall>k < length cs. set c \<inter> set (cs ! k) = {}"
    proof (intro allI impI)
      fix k assume "k < length cs"
      then have "set (cs ! k) \<subseteq> \<Union> (set ` set cs)" by (meson UN_upper nth_mem)
      with un show "set c \<inter> set (cs ! k) = {}" by blast
    qed
    show ?case
    proof (intro conjI allI impI)
      show "\<forall>c' \<in> set (c # cs). distinct c'" using ih dc by simp
    next
      fix i j assume "i < length (c # cs)" "j < length (c # cs)" "i \<noteq> j"
      then show "set ((c # cs) ! i) \<inter> set ((c # cs) ! j) = {}"
        using ih dj by (cases i; cases j) (auto simp: Int_commute)
    qed
  qed
  with d show ?thesis by blast
qed

theorem findContours_disjoint_witness:
  "length (findContours twoLongRows 12 3) = 2 \<and>
   distinct (concat (findContours twoLongRows 12 3)) \<and>
   distinct (findContours twoLongRows 12 3 ! 0) \<and>
   set (findContours twoLongRows 12 3 ! 0) \<inter> set (findContours twoLongRows 12 3 ! 1) = {}"
proof -
  have l: "length (findContours twoLongRows 12 3) = 2"
    by (simp add: findContours_twoLongRows)
  show ?thesis
    using findContours_disjoint [of twoLongRows 12 3] l by simp
qed

section \<open>Edge detection on two mirror images\<close>

lemma convolve_brightLeft:
  "convolve sobelX brightLeft 5 1 1 = Some (- 1020)" "convolve sobelY brightLeft 5 1 1 = Some 0"
  "convolve sobelX brightLeft 5 2 1 = Some (- 800)" "convolve sobelY brightLeft 5 2 1 = Some 0"
  "convolve sobelX brightLeft 5 3 1 = Some 0" "convolve sobelY brightLeft 5 3 1 = Some 0"
  by code_simp+

lemma convolve_brightRight:
  "convolve sobelX brightRight 5 1 1 = Some 0" "convolve sobelY brightRight 5 1 1 = Some 0"
  "convolve sobelX brightRight 5 2 1 = Some 800" "convolve sobelY brightRight 5 2 1 = Some 0"
  "convolve sobelX brightRight 5 3 1 = Some 1020" "convolve sobelY brightRight 5 3 1 = Some 0"
  by code_simp+

lemma sqrt_examples: "sqrt 1040400 = 1020" "sqrt 640000 = 800"
  by (rule real_sqrt_unique; simp)+

lemma upto_1_3: "[1..3] = [1, 2, 3]"
  by code_simp

lemma update_examples:
  "(replicate 15 a)[6 := b, 7 := c, 8 := d] = [a, a, a, a, a, a, b, c, d, a, a, a, a, a, a]"
  "(replicate 15 a)[6 := b, 7 := c] = [a, a, a, a, a, a, b, c, a, a, a, a, a, a, a]"
  "(replicate 15 a)[8 := d] = [a, a, a, a, a, a, a, a, d, a, a, a, a, a, a]"
  by (simp_all add: numeral_eq_Suc)

lemma length_examples: "length brightLeft = 15" "length brightRight = 15"
  by (simp_all add: brightLeft_def brightRight_def)

lemma gradients_brightLeft:
  "gradients brightLeft 5 3 =
     ([Some 0, Some 0, Some 0, Some 0, Some 0,
       Some 0, Some 1020, Some 800, Some 0, Some 0,
       Some 0, Some 0, Some 0, Some 0, Some 0],
      [Some 0, Some 0, Some 0, Some 0, Some 0,
       Some 0, Some pi, Some pi, Some 0, Some 0,
       Some 0, Some 0, Some 0, Some 0, Some 0])"
  by (simp add: gradients_def convolve_brightLeft length_examples magnitudeOf_def
        directionOf_def atan2_def put_def sqrt_examples Let_def upto_1_3 update_examples)

lemma gradients_brightRight:
  "gradients brightRight 5 3 =
     ([Some 0, Some 0, Some 0, Some 0, Some 0,
       Some 0, Some 0, Some 800, Some 1020, Some 0,
       Some 0, Some 0, Some 0, Some 0, Some 0],
      [Some 0, Some 0, Some 0, Some 0, Some 0,
       Some 0, Some 0, Some 0, Some 0, Some 0,
       Some 0, Some 0, Some 0, Some 0, Some 0])"
  by (simp add: gradients_def convolve_brightRight length_examples magnitudeOf_def
        directionOf_def atan2_def put_def sqrt_examples Let_def upto_1_3 update_examples)


lemma nms_brightLeft:
  "nonMaximumSuppression brightLeft (fst (gradients brightLeft 5 3))
     (snd (gradients brightLeft 5 3)) 5 3 60 140 =
   [0, 0, 0, 0, 0,  0, 255, 255, 0, 0,  0, 0, 0, 0, 0]"
  by (simp add: gradients_brightLeft nonMaximumSuppression_def suppressAt_def num_def
        item_def put_def neighborOffsets_def geq_def lt_def gt_def classify_def
        length_examples upto_1_3 Let_def update_examples)

lemma nms_brightRight:
  "nonMaximumSuppression brightRight (fst (gradients brightRight 5 3))
     (snd (gradients brightRight 5 3)) 5 3 60 140 =
   [0, 0, 0, 0, 0,  0, 0, 0, 255, 0,  0, 0, 0, 0, 0]"
  by (simp add: gradients_brightRight nonMaximumSuppression_def suppressAt_def num_def
        item_def put_def neighborOffsets_def geq_def lt_def gt_def classify_def
        length_examples upto_1_3 Let_def update_examples)


lemma hysteresis_examples:
  "hysteresis brightLeft [0, 0, 0, 0, 0,  0, 255, 255, 0, 0,  0, 0, 0, 0, 0] 5 3 =
     [0, 0, 0, 0, 0,  0, 255, 255, 0, 0,  0, 0, 0, 0, 0]"
  "hysteresis brightRight [0, 0, 0, 0, 0,  0, 0, 0, 255, 0,  0, 0, 0, 0, 0] 5 3 =
     [0, 0, 0, 0, 0,  0, 0, 0, 255, 0,  0, 0, 0, 0, 0]"
  by code_simp+

lemma neighborOffsets_other:
  assumes "d < - pi / 8 \<or> 5 * pi / 8 \<le> d"
  shows "neighborOffsets (Some d) w = (- w + 1, w - 1)"
proof -
  have "0 < pi" by (rule pi_gt_zero)
  with assms show ?thesis
    by (auto simp: neighborOffsets_def geq_def lt_def)
qed

lemma neighborOffsets_pi: "neighborOffsets (Some pi) 5 = (- 4, 4)"
  using neighborOffsets_other [of pi 5] pi_gt_zero by simp

lemma neighborOffsets_zero: "neighborOffsets (Some 0) 5 = (- 1, 1)"
  using pi_gt_zero by (simp add: neighborOffsets_def geq_def lt_def)

text \<open>
  C4: the \<open>if\<close> chain tests the direction itself, which \<open>atan2\<close> gives between
  \<open>-\<pi>\<close> and \<open>\<pi>\<close>, against three bins of 45 degrees; every other direction falls
  into the last branch, the diagonal from the upper right to the lower left. A gradient
  that points to the left has direction \<open>\<pi>\<close>, so its pixel is compared with those two
  diagonal neighbours and not with its left and right neighbours. In \<open>brightLeft\<close> the
  pixel \<open>(2, 1)\<close>, of magnitude 800, survives beside its left neighbour of magnitude
  1020; in the mirror image \<open>brightRight\<close> the gradient points to the right, the
  direction is 0, and the pixel of magnitude 800 is suppressed.
\<close>

theorem suppression_ignores_leftward_gradient:
  "gradients brightLeft 5 3 =
     ([Some 0, Some 0, Some 0, Some 0, Some 0,
       Some 0, Some 1020, Some 800, Some 0, Some 0,
       Some 0, Some 0, Some 0, Some 0, Some 0],
      [Some 0, Some 0, Some 0, Some 0, Some 0,
       Some 0, Some pi, Some pi, Some 0, Some 0,
       Some 0, Some 0, Some 0, Some 0, Some 0]) \<and>
   neighborOffsets (Some pi) 5 = (- 4, 4) \<and>
   neighborOffsets (Some 0) 5 = (- 1, 1) \<and>
   applyCannyEdgeDetection brightLeft 5 3 60 140 =
     [0, 0, 0, 0, 0,  0, 255, 255, 0, 0,  0, 0, 0, 0, 0] \<and>
   applyCannyEdgeDetection brightRight 5 3 60 140 =
     [0, 0, 0, 0, 0,  0, 0, 0, 255, 0,  0, 0, 0, 0, 0]"
proof -
  have "applyCannyEdgeDetection brightLeft 5 3 60 140 =
      [0, 0, 0, 0, 0,  0, 255, 255, 0, 0,  0, 0, 0, 0, 0]"
    unfolding applyCannyEdgeDetection_def Let_def case_prod_beta nms_brightLeft
    by (rule hysteresis_examples)
  moreover have "applyCannyEdgeDetection brightRight 5 3 60 140 =
      [0, 0, 0, 0, 0,  0, 0, 0, 255, 0,  0, 0, 0, 0, 0]"
    unfolding applyCannyEdgeDetection_def Let_def case_prod_beta nms_brightRight
    by (rule hysteresis_examples)
  ultimately show ?thesis
    using gradients_brightLeft neighborOffsets_pi neighborOffsets_zero by simp
qed


end
